theory Spec2Isabelle
  imports Main
begin

section \<open>Python values used by \<^verbatim>\<open>code_jam.py\<close>\<close>

text \<open>
  The module is modelled as it runs on Python 3.7 and later. A text string is a list of
  characters; a character stands for a code point below 256. The exceptions that can
  travel through the module are values of \<open>error\<close>; a call that may raise returns a sum,
  \<open>Inl\<close> carrying the exception.
\<close>

datatype error =
    StopIteration
  | ValueError
  | RuntimeError
  | BrokenPipeError
  | OtherError string

text \<open>
  Since PEP 479, a \<open>StopIteration\<close> that escapes the body of a generator is replaced by
  a \<open>RuntimeError\<close>; every other exception leaves the generator unchanged.
\<close>

definition generator_raise :: "error \<Rightarrow> error" where
  "generator_raise e = (if e = StopIteration then RuntimeError else e)"

subsection \<open>Whitespace and \<^verbatim>\<open>str.split()\<close>\<close>

definition newline :: char where
  "newline = CHR 0x0A"

text \<open>
  \<^verbatim>\<open>str.isspace\<close> on one character: the code points 9 to 13, 28 to 32, 133 and 160 are
  the whitespace of Python below 256.
\<close>

definition isspace :: "char \<Rightarrow> bool" where
  "isspace c =
     (let n = (of_char c :: nat)
      in (9 \<le> n \<and> n \<le> 13) \<or> (28 \<le> n \<and> n \<le> 32) \<or> n = 133 \<or> n = 160)"

definition nonspace :: "char \<Rightarrow> bool" where
  "nonspace c = (\<not> isspace c)"

text \<open>
  \<^verbatim>\<open>line.split()\<close> with no argument: skip whitespace, take characters up to the next
  whitespace as one word, repeat until the string ends.
\<close>

function str_split :: "string \<Rightarrow> string list" where
  "str_split s =
     (case dropWhile isspace s of
        [] \<Rightarrow> []
      | c # cs \<Rightarrow> (c # takeWhile nonspace cs) # str_split (dropWhile nonspace cs))"
  by pat_completeness auto
termination
proof (relation "measure length")
  show "wf (measure length)" by simp
next
  fix s :: string and c cs
  assume a: "dropWhile isspace s = c # cs"
  have "length (dropWhile nonspace cs) \<le> length cs"
    by (rule length_dropWhile_le)
  also have "length cs < length (dropWhile isspace s)"
    using a by simp
  also have "length (dropWhile isspace s) \<le> length s"
    by (rule length_dropWhile_le)
  finally show "(dropWhile nonspace cs, s) \<in> measure length" by simp
qed

declare str_split.simps [simp del]

subsection \<open>Iterating a text stream by lines\<close>

text \<open>
  \<^verbatim>\<open>for line in istr\<close> on a text stream with the content \<open>s\<close>: every line keeps its
  terminating newline; the last line has none when the content does not end in one.
\<close>

function iter_lines :: "string \<Rightarrow> string list" where
  "iter_lines s =
     (if s = [] then []
      else (case dropWhile (\<lambda>c. c \<noteq> newline) s of
              [] \<Rightarrow> [s]
            | c # r \<Rightarrow> (takeWhile (\<lambda>c. c \<noteq> newline) s @ [c]) # iter_lines r))"
  by pat_completeness auto
termination
proof (relation "measure length")
  show "wf (measure length)" by simp
next
  fix s :: string and c r
  assume a: "dropWhile (\<lambda>c. c \<noteq> newline) s = c # r"
  have "length r < length (dropWhile (\<lambda>c. c \<noteq> newline) s)"
    using a by simp
  also have "\<dots> \<le> length s"
    by (rule length_dropWhile_le)
  finally show "(r, s) \<in> measure length" by simp
qed

declare iter_lines.simps [simp del]

subsection \<open>Conversions: \<^verbatim>\<open>int(token)\<close> and \<^verbatim>\<open>str(number)\<close>\<close>

definition isdigit :: "char \<Rightarrow> bool" where
  "isdigit c = (48 \<le> (of_char c :: nat) \<and> (of_char c :: nat) \<le> 57)"

definition digit_value :: "char \<Rightarrow> nat" where
  "digit_value c = (of_char c :: nat) - 48"

text \<open>
  The digits of a decimal literal after its first digit: a digit extends the number, and
  one underscore is accepted between two digits. The accumulator is the value read so far.
\<close>

fun int_digits :: "nat \<Rightarrow> string \<Rightarrow> nat option" where
  "int_digits a [] = Some a"
| "int_digits a [c] = (if isdigit c then Some (10 * a + digit_value c) else None)"
| "int_digits a (c # d # ds) =
     (if isdigit c then int_digits (10 * a + digit_value c) (d # ds)
      else if c = CHR ''_'' \<and> isdigit d then int_digits (10 * a + digit_value d) ds
      else None)"

definition int_unsigned :: "string \<Rightarrow> error + int" where
  "int_unsigned s =
     (case s of
        [] \<Rightarrow> Inl ValueError
      | c # cs \<Rightarrow>
          (if isdigit c
           then (case int_digits (digit_value c) cs of
                   None \<Rightarrow> Inl ValueError
                 | Some n \<Rightarrow> Inr (int n))
           else Inl ValueError))"

text \<open>
  \<^verbatim>\<open>int(token)\<close> on a token, which holds no whitespace: an optional sign, then the
  digits; anything else raises \<open>ValueError\<close>. The interpreter's configurable limit on
  the number of digits is taken as switched off.
\<close>

definition py_int :: "string \<Rightarrow> error + int" where
  "py_int s =
     (case s of
        [] \<Rightarrow> Inl ValueError
      | c # cs \<Rightarrow>
          (if c = CHR ''-'' then (case int_unsigned cs of Inl e \<Rightarrow> Inl e | Inr n \<Rightarrow> Inr (- n))
           else if c = CHR ''+'' then int_unsigned cs
           else int_unsigned s))"

definition digit_char :: "nat \<Rightarrow> char" where
  "digit_char d = ''0123456789'' ! d"

function str_nat :: "nat \<Rightarrow> string" where
  "str_nat n = (if n < 10 then [digit_char n] else str_nat (n div 10) @ [digit_char (n mod 10)])"
  by pat_completeness auto
termination
  by (relation "measure id") auto

declare str_nat.simps [simp del]

text \<open>\<^verbatim>\<open>str(i)\<close> for an integer: its decimal digits, after a minus sign when negative.\<close>

definition str_int :: "int \<Rightarrow> string" where
  "str_int i = (if i < 0 then CHR ''-'' # str_nat (nat (- i)) else str_nat (nat i))"

section \<open>The class \<^verbatim>\<open>Tokens\<close>\<close>

text \<open>
  \<^verbatim>\<open>Tokens.tokenize\<close> is a generator over the lines of the stream and the words of
  each line. It is modelled by the list of the tokens it yields, in order.
\<close>

definition tokenize :: "string \<Rightarrow> string list" where
  "tokenize istr = concat (map str_split (iter_lines istr))"

text \<open>
  A \<open>Tokens\<close> object holds that generator in \<^verbatim>\<open>self.tokens\<close>. The state of the generator
  is its position in the token sequence: \<open>yielded\<close> are the tokens it has handed out so
  far, oldest first, and \<open>tokens\<close> are the tokens it has yet to yield.
\<close>

record Tokens =
  yielded :: "string list"
  tokens :: "string list"

definition Tokens_init :: "string \<Rightarrow> Tokens" where
  "Tokens_init stream = \<lparr>yielded = [], tokens = tokenize stream\<rparr>"

text \<open>
  \<^verbatim>\<open>next(self.tokens)\<close>: the next raw token, or \<open>StopIteration\<close> when the generator is
  exhausted. \<^verbatim>\<open>__iter__\<close> returns this same generator, so iterating a \<open>Tokens\<close> object
  directly is \<open>tokens_next\<close> too.
\<close>

definition tokens_next :: "Tokens \<Rightarrow> (error + string) \<times> Tokens" where
  "tokens_next tk =
     (case tokens tk of
        [] \<Rightarrow> (Inl StopIteration, tk)
      | x # xs \<Rightarrow> (Inr x, \<lparr>yielded = yielded tk @ [x], tokens = xs\<rparr>))"

text \<open>
  \<^verbatim>\<open>next_token(t)\<close> is \<^verbatim>\<open>t(next(self.tokens))\<close>: the token is taken from the generator
  first, then converted; a failing conversion raises after the token is gone.
\<close>

definition next_token :: "(string \<Rightarrow> error + 'a) \<Rightarrow> Tokens \<Rightarrow> (error + 'a) \<times> Tokens" where
  "next_token t tk =
     (case tokens_next tk of
        (Inl e, tk') \<Rightarrow> (Inl e, tk')
      | (Inr x, tk') \<Rightarrow> (t x, tk'))"

text \<open>
  \<^verbatim>\<open>next_many_tokens(n, t)\<close> returns a generator object and reads nothing yet. The object
  holds the number of iterations of \<^verbatim>\<open>range(n)\<close> still to run (none for a negative \<open>n\<close>)
  and the conversion.
\<close>

record 'a token_generator =
  todo :: nat
  conv :: "string \<Rightarrow> error + 'a"

definition next_many_tokens :: "int \<Rightarrow> (string \<Rightarrow> error + 'a) \<Rightarrow> 'a token_generator" where
  "next_many_tokens n t = \<lparr>todo = nat n, conv = t\<rparr>"

text \<open>
  \<^verbatim>\<open>next(g)\<close> on such a generator object: with no iteration left it ends
  (\<open>StopIteration\<close> to the caller, nothing read); otherwise it runs
  \<^verbatim>\<open>yield self.next_token(t)\<close>. An exception in the body ends the generator for good, and
  a \<open>StopIteration\<close> from the exhausted stream leaves it as \<open>RuntimeError\<close>.
\<close>

definition generator_next ::
  "'a token_generator \<Rightarrow> Tokens \<Rightarrow> (error + 'a) \<times> 'a token_generator \<times> Tokens" where
  "generator_next g tk =
     (case todo g of
        0 \<Rightarrow> (Inl StopIteration, g, tk)
      | Suc k \<Rightarrow>
          (case next_token (conv g) tk of
             (Inl e, tk') \<Rightarrow> (Inl (generator_raise e), g\<lparr>todo := 0\<rparr>, tk')
           | (Inr v, tk') \<Rightarrow> (Inr v, g\<lparr>todo := k\<rparr>, tk')))"

text \<open>
  Consuming a generator object to its end, as \<^verbatim>\<open>list(g)\<close> or a \<^verbatim>\<open>for\<close> loop does: the
  values it yielded, the exception that stopped it (\<open>None\<close> when it ended by itself), and
  the \<open>Tokens\<close> object afterwards.
\<close>

function consume :: "'a token_generator \<Rightarrow> Tokens \<Rightarrow> 'a list \<times> error option \<times> Tokens" where
  "consume g tk =
     (case generator_next g tk of
        (Inl e, g', tk') \<Rightarrow> ([], (if e = StopIteration then None else Some e), tk')
      | (Inr v, g', tk') \<Rightarrow>
          (case consume g' tk' of (vs, r, tk'') \<Rightarrow> (v # vs, r, tk'')))"
  by pat_completeness auto
termination
proof (relation "measure (\<lambda>(g, tk). todo g)")
  show "wf (measure (\<lambda>(g, tk). todo g))" by simp
next
  fix g :: "'a token_generator" and tk x1 x2 v g' tk'
  assume "(x1, x2) = generator_next g tk" and "(g', tk') = x2" and "x1 = Inr v"
  then have "generator_next g tk = (Inr v, g', tk')" by simp
  then have "todo g' < todo g"
    by (auto simp: generator_next_def split: nat.splits prod.splits sum.splits)
  then show "((g', tk'), (g, tk)) \<in> measure (\<lambda>(g, tk). todo g)" by simp
qed

declare consume.simps [simp del]

text \<open>
  \<^verbatim>\<open>next_counted_tokens(t)\<close> is an ordinary method: it reads the count with
  \<^verbatim>\<open>self.next_token(int)\<close> at once, raising what that raises, and returns the generator
  object of \<^verbatim>\<open>next_many_tokens\<close> for that count.
\<close>

definition next_counted_tokens ::
  "(string \<Rightarrow> error + 'a) \<Rightarrow> Tokens \<Rightarrow> (error + 'a token_generator) \<times> Tokens" where
  "next_counted_tokens t tk =
     (case next_token py_int tk of
        (Inl e, tk') \<Rightarrow> (Inl e, tk')
      | (Inr n, tk') \<Rightarrow> (Inr (next_many_tokens n t), tk'))"

section \<open>Generators and file objects\<close>

text \<open>
  What a generator does when it is iterated to its end: it yields values one after the
  other, and then either returns (\<open>Stop\<close>) or raises (\<open>Raise\<close>). The consumer reads the
  trace from the front, so a consumer that stops early never meets what comes later.
\<close>

datatype 'a generated =
    Stop
  | Raise error
  | Yield 'a "'a generated"

text \<open>
  A writable file object is its state and its two methods; a method returns the new
  state and the exception it raised, if any.
\<close>

record 's file_ops =
  file_write :: "'s \<Rightarrow> string \<Rightarrow> 's \<times> error option"
  file_flush :: "'s \<Rightarrow> 's \<times> error option"

datatype call = Write string | Flush

definition perform :: "'s file_ops \<Rightarrow> call \<Rightarrow> 's \<Rightarrow> 's \<times> error option" where
  "perform f c s = (case c of Write x \<Rightarrow> file_write f s x | Flush \<Rightarrow> file_flush f s)"

text \<open>Method calls in sequence: the first exception ends the sequence.\<close>

fun perform_all :: "'s file_ops \<Rightarrow> call list \<Rightarrow> 's \<Rightarrow> 's \<times> error option" where
  "perform_all f [] s = (s, None)"
| "perform_all f (c # cs) s =
     (case perform f c s of
        (s', None) \<Rightarrow> perform_all f cs s'
      | (s', Some e) \<Rightarrow> (s', Some e))"

text \<open>
  \<^verbatim>\<open>print(a, b, sep=sep, file=ostr, flush=True)\<close> with \<open>a\<close> and \<open>b\<close> already converted to
  text: the built-in writes the first object, the separator, the second object and the
  line end, each with a call of \<^verbatim>\<open>ostr.write\<close>, and then calls \<^verbatim>\<open>ostr.flush\<close>.
\<close>

definition print_calls :: "string \<Rightarrow> string \<Rightarrow> string \<Rightarrow> call list" where
  "print_calls a b sep = [Write a, Write sep, Write b, Write [newline], Flush]"

definition py_print :: "'s file_ops \<Rightarrow> string \<Rightarrow> string \<Rightarrow> string \<Rightarrow> 's \<Rightarrow> 's \<times> error option" where
  "py_print f a b sep s = perform_all f (print_calls a b sep) s"

section \<open>\<^verbatim>\<open>print_code_jam\<close>\<close>

definition format_case :: "nat \<Rightarrow> string" where
  "format_case k = ''Case #'' @ str_nat k @ '':''"

text \<open>
  What \<^verbatim>\<open>print_code_jam\<close> leaves behind: the state of the file object, the exception
  that left the function (\<open>None\<close> when it returned), and whether it reset the handling of
  \<open>SIGPIPE\<close> to the default.
\<close>

record 's outcome =
  ostr :: 's
  raised :: "error option"
  sigpipe_default :: bool

text \<open>The \<^verbatim>\<open>except BrokenPipeError\<close> clause around the loop; any other exception goes on.\<close>

definition except_clause :: "error \<Rightarrow> 's \<Rightarrow> 's outcome" where
  "except_clause e s =
     (if e = BrokenPipeError
      then \<lparr>ostr = s, raised = None, sigpipe_default = True\<rparr>
      else \<lparr>ostr = s, raised = Some e, sigpipe_default = False\<rparr>)"

text \<open>
  The loop \<^verbatim>\<open>for case, solution in enumerate(solutions, 1)\<close>: \<open>k\<close> is the number of the
  next case, \<open>str_of\<close> is \<^verbatim>\<open>str\<close> on the type of the solutions.
\<close>

fun print_loop ::
  "'s file_ops \<Rightarrow> ('a \<Rightarrow> string) \<Rightarrow> string \<Rightarrow> nat \<Rightarrow> 'a generated \<Rightarrow> 's \<Rightarrow> 's outcome" where
  "print_loop f str_of sep k Stop s = \<lparr>ostr = s, raised = None, sigpipe_default = False\<rparr>"
| "print_loop f str_of sep k (Raise e) s = except_clause e s"
| "print_loop f str_of sep k (Yield v g) s =
     (case py_print f (format_case k) (str_of v) sep s of
        (s', None) \<Rightarrow> print_loop f str_of sep (Suc k) g s'
      | (s', Some e) \<Rightarrow> except_clause e s')"

definition print_code_jam ::
  "'s file_ops \<Rightarrow> ('a \<Rightarrow> string) \<Rightarrow> 'a generated \<Rightarrow> 's \<Rightarrow> bool \<Rightarrow> 's outcome" where
  "print_code_jam f str_of solutions s insert_newline =
     (let sep = (if insert_newline then [newline] else '' '')
      in print_loop f str_of sep 1 solutions s)"

section \<open>The drivers\<close>

definition generator_solve_code_jam ::
  "'s file_ops \<Rightarrow> ('a \<Rightarrow> string) \<Rightarrow> (Tokens \<Rightarrow> 'a generated) \<Rightarrow> string \<Rightarrow> 's \<Rightarrow> bool \<Rightarrow> 's outcome"
  where
  "generator_solve_code_jam f str_of solver istr s insert_newline =
     print_code_jam f str_of (solver (Tokens_init istr)) s insert_newline"

text \<open>
  A solver of one case is called with the \<open>Tokens\<close> object; it returns a solution or
  raises, and leaves the object with the tokens it did not read.
\<close>

type_synonym 'a solver = "Tokens \<Rightarrow> (error + 'a) \<times> Tokens"

text \<open>The loop \<^verbatim>\<open>for _ in range(n): yield solver(tokens)\<close> of the inner generator.\<close>

fun solve_loop :: "'a solver \<Rightarrow> nat \<Rightarrow> Tokens \<Rightarrow> 'a generated" where
  "solve_loop solver 0 tk = Stop"
| "solve_loop solver (Suc n) tk =
     (case solver tk of
        (Inl e, tk') \<Rightarrow> Raise (generator_raise e)
      | (Inr v, tk') \<Rightarrow> Yield v (solve_loop solver n tk'))"

text \<open>
  The inner generator \<^verbatim>\<open>solve\<close>: the case count is read when the generator starts, inside
  its body; \<^verbatim>\<open>range\<close> of a negative count is empty.
\<close>

definition solve :: "'a solver \<Rightarrow> Tokens \<Rightarrow> 'a generated" where
  "solve solver tk =
     (case next_token py_int tk of
        (Inl e, tk') \<Rightarrow> Raise (generator_raise e)
      | (Inr n, tk') \<Rightarrow> solve_loop solver (nat n) tk')"

definition solve_code_jam ::
  "'s file_ops \<Rightarrow> ('a \<Rightarrow> string) \<Rightarrow> 'a solver \<Rightarrow> string \<Rightarrow> 's \<Rightarrow> bool \<Rightarrow> 's outcome" where
  "solve_code_jam f str_of solver istr s insert_newline =
     generator_solve_code_jam f str_of (solve solver) istr s insert_newline"

section \<open>File objects and solvers of the examples\<close>

text \<open>
  A file object in memory: it records every call it receives and never fails.
  \<open>written\<close> is the text such a record holds.
\<close>

definition memory_file :: "call list file_ops" where
  "memory_file =
     \<lparr>file_write = (\<lambda>s x. (s @ [Write x], None)), file_flush = (\<lambda>s. (s @ [Flush], None))\<rparr>"

fun written :: "call list \<Rightarrow> string" where
  "written [] = []"
| "written (Write x # cs) = x @ written cs"
| "written (Flush # cs) = written cs"

text \<open>A solver that reads two integers and returns their sum.\<close>

definition sum_solver :: "int solver" where
  "sum_solver tk =
     (case next_token py_int tk of
        (Inl e, tk1) \<Rightarrow> (Inl e, tk1)
      | (Inr a, tk1) \<Rightarrow>
          (case next_token py_int tk1 of
             (Inl e, tk2) \<Rightarrow> (Inl e, tk2)
           | (Inr b, tk2) \<Rightarrow> (Inr (a + b), tk2)))"

text \<open>A solver that reads one integer and returns it.\<close>

definition int_solver :: "int solver" where
  "int_solver tk = next_token py_int tk"

text \<open>
  A finite sequence of solutions, as a generator that yields them in order and returns.
\<close>

fun yields :: "'a list \<Rightarrow> 'a generated" where
  "yields [] = Stop"
| "yields (v # vs) = Yield v (yields vs)"

text \<open>
  Reading a text back by lines, each line without its newline: the lines of
  \<open>iter_lines\<close>, cut at the newline that ends them.
\<close>

definition str_splitlines :: "string \<Rightarrow> string list" where
  "str_splitlines s = map (takeWhile (\<lambda>c. c \<noteq> newline)) (iter_lines s)"

text \<open>
  The method calls that the loop of \<^verbatim>\<open>print_code_jam\<close> makes on the file object for the
  solutions \<open>vs\<close>, numbered from \<open>k\<close>, as long as no call raises.
\<close>

definition all_calls :: "('a \<Rightarrow> string) \<Rightarrow> string \<Rightarrow> nat \<Rightarrow> 'a list \<Rightarrow> call list" where
  "all_calls str_of sep k vs =
     concat (map (\<lambda>(i, v). print_calls (format_case i) (str_of v) sep) (List.enumerate k vs))"

section \<open>Maximal runs of non-whitespace characters\<close>

text \<open>
  The tokens as the specification describes them. Positions \<open>i\<close> and \<open>j\<close> mark a maximal
  run of non-whitespace characters of \<open>s\<close> when the characters from \<open>i\<close> up to, not
  including, \<open>j\<close> are at least one and none is whitespace, and the run cannot be extended:
  it starts at the start of \<open>s\<close> or after a whitespace character, and it ends at the end of
  \<open>s\<close> or before a whitespace character. \<open>substring s (i, j)\<close> is the text between the
  two positions.
\<close>

definition is_run :: "string \<Rightarrow> nat \<Rightarrow> nat \<Rightarrow> bool" where
  "is_run s i j \<longleftrightarrow>
     i < j \<and> j \<le> length s
     \<and> (\<forall>k. i \<le> k \<and> k < j \<longrightarrow> nonspace (s ! k))
     \<and> (i = 0 \<or> isspace (s ! (i - 1)))
     \<and> (j = length s \<or> isspace (s ! j))"

definition substring :: "string \<Rightarrow> nat \<times> nat \<Rightarrow> string" where
  "substring s p = take (snd p - fst p) (drop (fst p) s)"

section \<open>Interleaved reads on one \<^verbatim>\<open>Tokens\<close> object\<close>

text \<open>
  What a caller can do with a \<open>Tokens\<close> object, one step at a time: take the next raw
  token by iterating the object, call \<^verbatim>\<open>next_token\<close>, call \<^verbatim>\<open>next_many_tokens\<close> or
  \<^verbatim>\<open>next_counted_tokens\<close> (each leaves a new generator object with the caller), or
  resume one of the generator objects obtained so far with \<^verbatim>\<open>next\<close>. The generator
  objects are numbered in the order of their creation. A session is the \<open>Tokens\<close> object
  together with the generator objects the caller holds.
\<close>

datatype 'a operation =
    Iterate
  | Next_token "string \<Rightarrow> error + 'a"
  | Next_many_tokens int "string \<Rightarrow> error + 'a"
  | Next_counted_tokens "string \<Rightarrow> error + 'a"
  | Resume nat

record 'a session =
  reader :: Tokens
  generators :: "'a token_generator list"

text \<open>
  One operation on a session. The value or exception that the caller receives is left
  out: \<open>yielded\<close> records which tokens were handed out. Resuming a generator object that
  does not exist is no operation.
\<close>

fun step :: "'a operation \<Rightarrow> 'a session \<Rightarrow> 'a session" where
  "step Iterate st = st\<lparr>reader := snd (tokens_next (reader st))\<rparr>"
| "step (Next_token t) st = st\<lparr>reader := snd (next_token t (reader st))\<rparr>"
| "step (Next_many_tokens n t) st =
     st\<lparr>generators := generators st @ [next_many_tokens n t]\<rparr>"
| "step (Next_counted_tokens t) st =
     (case next_counted_tokens t (reader st) of
        (Inl e, tk) \<Rightarrow> st\<lparr>reader := tk\<rparr>
      | (Inr g, tk) \<Rightarrow> st\<lparr>reader := tk, generators := generators st @ [g]\<rparr>)"
| "step (Resume i) st =
     (if i < length (generators st)
      then (case generator_next (generators st ! i) (reader st) of
              (r, g, tk) \<Rightarrow> st\<lparr>reader := tk, generators := (generators st)[i := g]\<rparr>)
      else st)"

definition run :: "'a operation list \<Rightarrow> 'a session \<Rightarrow> 'a session" where
  "run ops st = fold step ops st"

definition start :: "string \<Rightarrow> 'a session" where
  "start istr = \<lparr>reader = Tokens_init istr, generators = []\<rparr>"

text \<open>
  \<open>advanced tk tk'\<close>: the \<open>Tokens\<close> object \<open>tk'\<close> is \<open>tk\<close> itself, or \<open>tk\<close> after it handed out
  its next token.
\<close>

definition advanced :: "Tokens \<Rightarrow> Tokens \<Rightarrow> bool" where
  "advanced tk tk' \<longleftrightarrow>
     tk' = tk \<or> (\<exists>x rest. tokens tk = x # rest \<and> tk' = \<lparr>yielded = yielded tk @ [x], tokens = rest\<rparr>)"



section \<open>The example run\<close>

text \<open>
  Claim C1. On the input stream with the four lines \<open>3\<close>, \<open>1 2\<close>, \<open>3 4\<close> and \<open>5 6\<close>, each
  ended by a newline, \<^verbatim>\<open>solve_code_jam\<close> with the solver that adds two integers and with
  \<^verbatim>\<open>insert_newline\<close> false returns normally, and the file object has received exactly the
  three lines \<open>Case #1: 3\<close>, \<open>Case #2: 7\<close> and \<open>Case #3: 11\<close>, in that order, each written
  piece by piece and flushed.
\<close>

theorem solve_code_jam_example:
  "solve_code_jam memory_file str_int sum_solver
       ''3\<newline>1 2\<newline>3 4\<newline>5 6\<newline>'' [] False =
     \<lparr>ostr =
        [Write ''Case #1:'', Write '' '', Write ''3'', Write ''\<newline>'', Flush,
         Write ''Case #2:'', Write '' '', Write ''7'', Write ''\<newline>'', Flush,
         Write ''Case #3:'', Write '' '', Write ''11'', Write ''\<newline>'', Flush],
      raised = None, sigpipe_default = False\<rparr>
   \<and> written (ostr (solve_code_jam memory_file str_int sum_solver
       ''3\<newline>1 2\<newline>3 4\<newline>5 6\<newline>'' [] False)) =
     ''Case #1: 3\<newline>Case #2: 7\<newline>Case #3: 11\<newline>''"
  by code_simp

section \<open>Reading single tokens\<close>

lemma int_digits_chars:
  "int_digits a s = Some n \<Longrightarrow> c \<in> set s \<Longrightarrow> isdigit c \<or> c = CHR ''_''"
  by (induction a s arbitrary: n rule: int_digits.induct) (auto split: if_splits)

lemma int_unsigned_chars:
  "int_unsigned s = Inr n \<Longrightarrow> c \<in> set s \<Longrightarrow> isdigit c \<or> c = CHR ''_''"
  by (auto simp: int_unsigned_def split: list.splits if_splits option.splits dest: int_digits_chars)

lemma py_int_chars:
  "py_int s = Inr n \<Longrightarrow> c \<in> set s \<Longrightarrow> isdigit c \<or> c = CHR ''_'' \<or> c = CHR ''+'' \<or> c = CHR ''-''"
  by (auto simp: py_int_def split: list.splits if_splits sum.splits dest: int_unsigned_chars)

lemma py_int_ValueError: "py_int s = Inl e \<Longrightarrow> e = ValueError"
  by (auto simp: py_int_def int_unsigned_def split: list.splits if_splits sum.splits option.splits)

lemma next_token_Cons:
  "next_token t \<lparr>yielded = ys, tokens = x # xs\<rparr> = (t x, \<lparr>yielded = ys @ [x], tokens = xs\<rparr>)"
  by (simp add: next_token_def tokens_next_def)

lemma next_token_Nil:
  "next_token t \<lparr>yielded = ys, tokens = []\<rparr> = (Inl StopIteration, \<lparr>yielded = ys, tokens = []\<rparr>)"
  by (simp add: next_token_def tokens_next_def)

lemma py_int_not_numeric:
  assumes "\<exists>c \<in> set x. \<not> (isdigit c \<or> c = CHR ''_'' \<or> c = CHR ''+'' \<or> c = CHR ''-'')"
  shows "py_int x = Inl ValueError"
proof (cases "py_int x")
  case (Inl e)
  then show ?thesis using py_int_ValueError by blast
next
  case (Inr n)
  then show ?thesis using assms py_int_chars by blast
qed

text \<open>
  Claim C4. With a token left, \<^verbatim>\<open>next_token(t)\<close> takes exactly that token from the stream
  and returns \<open>t\<close> applied to it, which is the value or the exception of the conversion;
  with no token left it raises \<open>StopIteration\<close> and the stream stays as it is. For
  \<^verbatim>\<open>int\<close>, a token with a character that is no digit, sign or underscore raises
  \<open>ValueError\<close>, and the token is consumed all the same.
\<close>

theorem next_token_contract:
  "next_token t \<lparr>yielded = ys, tokens = x # xs\<rparr> = (t x, \<lparr>yielded = ys @ [x], tokens = xs\<rparr>)
   \<and> next_token t \<lparr>yielded = ys, tokens = []\<rparr> = (Inl StopIteration, \<lparr>yielded = ys, tokens = []\<rparr>)
   \<and> ((\<exists>c \<in> set x. \<not> (isdigit c \<or> c = CHR ''_'' \<or> c = CHR ''+'' \<or> c = CHR ''-'')) \<longrightarrow>
        next_token py_int \<lparr>yielded = ys, tokens = x # xs\<rparr> =
          (Inl ValueError, \<lparr>yielded = ys @ [x], tokens = xs\<rparr>))"
  using py_int_not_numeric [of x] by (simp add: next_token_Cons next_token_Nil)

theorem next_token_contract_witness:
  "next_token py_int \<lparr>yielded = [''3''], tokens = [''abc'', ''7'']\<rparr> =
      (Inl ValueError, \<lparr>yielded = [''3'', ''abc''], tokens = [''7'']\<rparr>)
   \<and> next_token py_int \<lparr>yielded = [''3''], tokens = [''12'', ''7'']\<rparr> =
      (Inr 12, \<lparr>yielded = [''3'', ''12''], tokens = [''7'']\<rparr>)
   \<and> next_token py_int \<lparr>yielded = [''3''], tokens = []\<rparr> =
      (Inl StopIteration, \<lparr>yielded = [''3''], tokens = []\<rparr>)"
  using next_token_contract [of py_int "[''3'']" "''abc''" "[''7'']"]
        next_token_contract [of py_int "[''3'']" "''12''" "[''7'']"]
  by (simp add: isdigit_def py_int_def int_unsigned_def digit_value_def)

section \<open>Reading many tokens\<close>

lemma consume_done:
  "consume \<lparr>todo = 0, conv = t\<rparr> tk = ([], None, tk)"
  by (subst consume.simps) (simp add: generator_next_def)

lemma consume_exhausted:
  "consume \<lparr>todo = Suc k, conv = t\<rparr> \<lparr>yielded = ys, tokens = []\<rparr> =
     ([], Some RuntimeError, \<lparr>yielded = ys, tokens = []\<rparr>)"
  by (subst consume.simps)
     (simp add: generator_next_def next_token_Nil generator_raise_def)

lemma consume_failed:
  "t x = Inl e \<Longrightarrow>
   consume \<lparr>todo = Suc k, conv = t\<rparr> \<lparr>yielded = ys, tokens = x # xs\<rparr> =
     ([], Some (generator_raise e), \<lparr>yielded = ys @ [x], tokens = xs\<rparr>)"
  by (subst consume.simps)
     (simp add: generator_next_def next_token_Cons generator_raise_def)

lemma consume_yield:
  "t x = Inr v \<Longrightarrow>
   consume \<lparr>todo = Suc k, conv = t\<rparr> \<lparr>yielded = ys, tokens = x # xs\<rparr> =
     (case consume \<lparr>todo = k, conv = t\<rparr> \<lparr>yielded = ys @ [x], tokens = xs\<rparr> of
        (vs, r, tk) \<Rightarrow> (v # vs, r, tk))"
  by (subst consume.simps) (simp add: generator_next_def next_token_Cons)

lemma consume_enough:
  "k \<le> length toks \<Longrightarrow> map t (take k toks) = map Inr vs \<Longrightarrow>
   consume \<lparr>todo = k, conv = t\<rparr> \<lparr>yielded = ys, tokens = toks\<rparr> =
     (vs, None, \<lparr>yielded = ys @ take k toks, tokens = drop k toks\<rparr>)"
proof (induction k arbitrary: toks vs ys)
  case 0
  then show ?case by (simp add: consume_done)
next
  case (Suc k)
  from Suc.prems(1) obtain x xs where toks: "toks = x # xs"
    by (cases toks) auto
  from Suc.prems(2) toks obtain v ws where vs: "vs = v # ws" and tx: "t x = Inr v"
    and rest: "map t (take k xs) = map Inr ws"
    by (cases vs) auto
  from Suc.prems(1) toks have len: "k \<le> length xs" by simp
  show ?case
    using Suc.IH [OF len rest, of "ys @ [x]"] using tx by (simp add: toks vs consume_yield)
qed

lemma consume_short:
  "length toks < k \<Longrightarrow> map t toks = map Inr vs \<Longrightarrow>
   consume \<lparr>todo = k, conv = t\<rparr> \<lparr>yielded = ys, tokens = toks\<rparr> =
     (vs, Some RuntimeError, \<lparr>yielded = ys @ toks, tokens = []\<rparr>)"
proof (induction k arbitrary: toks vs ys)
  case 0
  then show ?case by simp
next
  case (Suc k)
  show ?case
  proof (cases toks)
    case Nil
    with Suc.prems show ?thesis by (simp add: consume_exhausted)
  next
    case (Cons x xs)
    with Suc.prems obtain v ws where vs: "vs = v # ws" and tx: "t x = Inr v"
      and rest: "map t xs = map Inr ws"
      by (cases vs) auto
    from Suc.prems(1) Cons have len: "length xs < k" by simp
    show ?thesis
      using Suc.IH [OF len rest, of "ys @ [x]"] using tx by (simp add: Cons vs consume_yield)
  qed
qed

lemma consume_parse_error:
  "i < k \<Longrightarrow> i < length toks \<Longrightarrow> map t (take i toks) = map Inr vs \<Longrightarrow> t (toks ! i) = Inl e \<Longrightarrow>
   consume \<lparr>todo = k, conv = t\<rparr> \<lparr>yielded = ys, tokens = toks\<rparr> =
     (vs, Some (generator_raise e),
      \<lparr>yielded = ys @ take (Suc i) toks, tokens = drop (Suc i) toks\<rparr>)"
proof (induction i arbitrary: k toks vs ys)
  case 0
  then obtain k' x xs where "k = Suc k'" "toks = x # xs"
    by (cases k; cases toks) auto
  with 0 show ?case by (simp add: consume_failed)
next
  case (Suc i)
  then obtain k' x xs where k: "k = Suc k'" and toks: "toks = x # xs"
    by (cases k; cases toks) auto
  from Suc.prems(3) toks obtain v ws where vs: "vs = v # ws" and tx: "t x = Inr v"
    and rest: "map t (take i xs) = map Inr ws"
    by (cases vs) auto
  have "consume \<lparr>todo = k', conv = t\<rparr> \<lparr>yielded = ys @ [x], tokens = xs\<rparr> =
     (ws, Some (generator_raise e),
      \<lparr>yielded = (ys @ [x]) @ take (Suc i) xs, tokens = drop (Suc i) xs\<rparr>)"
    using Suc.prems k toks rest by (intro Suc.IH) auto
  then show ?case using tx by (simp add: k toks vs consume_yield)
qed

text \<open>
  Consuming the generator of \<^verbatim>\<open>next_many_tokens(n, t)\<close> to its end, for any \<open>n \<ge> 0\<close>. When
  the stream holds \<open>n\<close> tokens and \<open>t\<close> converts each, exactly the next \<open>n\<close> tokens are
  consumed, in order, and their conversions are yielded. When the stream ends first, the
  tokens that were there are yielded and stay consumed, and the \<open>StopIteration\<close> of
  \<^verbatim>\<open>next(self.tokens)\<close> leaves the generator body, as \<open>RuntimeError\<close>. When \<open>t\<close> raises on a
  token, the token is consumed and the exception leaves the generator body in the same
  way.
\<close>

lemma consume_next_many_tokens:
  fixes n :: nat
  shows "(n \<le> length toks \<and> map t (take n toks) = map Inr vs \<longrightarrow>
            consume (next_many_tokens (int n) t) \<lparr>yielded = ys, tokens = toks\<rparr> =
              (vs, None, \<lparr>yielded = ys @ take n toks, tokens = drop n toks\<rparr>))
       \<and> (length toks < n \<and> map t toks = map Inr vs \<longrightarrow>
            consume (next_many_tokens (int n) t) \<lparr>yielded = ys, tokens = toks\<rparr> =
              (vs, Some RuntimeError, \<lparr>yielded = ys @ toks, tokens = []\<rparr>))
       \<and> (i < n \<and> i < length toks \<and> map t (take i toks) = map Inr vs \<and> t (toks ! i) = Inl e \<longrightarrow>
            consume (next_many_tokens (int n) t) \<lparr>yielded = ys, tokens = toks\<rparr> =
              (vs, Some (generator_raise e),
               \<lparr>yielded = ys @ take (Suc i) toks, tokens = drop (Suc i) toks\<rparr>))"
  by (simp add: next_many_tokens_def consume_enough consume_short consume_parse_error)

text \<open>
  Claim C5. The claim has the consumption of \<^verbatim>\<open>next_many_tokens(n, t)\<close> fail, when the stream
  ends early, with the error of an exhausted stream, which for \<^verbatim>\<open>next_token\<close> is
  \<open>StopIteration\<close>. The code does not do that. On the stream \<open>7\<close>, consuming
  \<^verbatim>\<open>next_many_tokens(2, int)\<close> yields 7 and keeps that token consumed, as the claim says,
  and then ends with \<open>RuntimeError\<close>: the \<open>StopIteration\<close> of \<^verbatim>\<open>next(self.tokens)\<close> is raised
  inside the generator body and is not let through. \<^verbatim>\<open>next_token\<close>, called on the same
  exhausted stream, raises \<open>StopIteration\<close>.
\<close>

theorem next_many_tokens_short_stream:
  "consume (next_many_tokens 2 py_int) (Tokens_init ''7'') =
     ([7], Some RuntimeError, \<lparr>yielded = [''7''], tokens = []\<rparr>)
   \<and> next_token py_int \<lparr>yielded = [''7''], tokens = []\<rparr> =
     (Inl StopIteration, \<lparr>yielded = [''7''], tokens = []\<rparr>)"
  by code_simp

lemma next_counted_tokens_count:
  "py_int c = Inr n \<Longrightarrow>
   next_counted_tokens t \<lparr>yielded = ys, tokens = c # toks\<rparr> =
     (Inr (next_many_tokens n t), \<lparr>yielded = ys @ [c], tokens = toks\<rparr>)"
  by (simp add: next_counted_tokens_def next_token_Cons)

text \<open>
  Claim C6, as the code has it. When the next token converts to the integer \<open>n \<ge> 0\<close>, at
  least \<open>n\<close> tokens follow it and \<open>t\<close> converts each of these, \<^verbatim>\<open>next_counted_tokens(t)\<close>
  consumes the count token on the call, and its generator, consumed to the end, reads
  exactly the \<open>n\<close> tokens after the count: whatever follows them stays in the stream,
  unchanged and in order.
\<close>

theorem next_counted_tokens_reads_count:
  fixes n :: nat
  assumes "py_int c = Inr (int n)" and "length ts = n" and "map t ts = map Inr vs"
  shows "next_counted_tokens t \<lparr>yielded = ys, tokens = c # ts @ rest\<rparr> =
           (Inr (next_many_tokens (int n) t), \<lparr>yielded = ys @ [c], tokens = ts @ rest\<rparr>)
       \<and> consume (next_many_tokens (int n) t) \<lparr>yielded = ys @ [c], tokens = ts @ rest\<rparr> =
           (vs, None, \<lparr>yielded = ys @ [c] @ ts, tokens = rest\<rparr>)"
proof
  show "next_counted_tokens t \<lparr>yielded = ys, tokens = c # ts @ rest\<rparr> =
           (Inr (next_many_tokens (int n) t), \<lparr>yielded = ys @ [c], tokens = ts @ rest\<rparr>)"
    using assms(1) by (rule next_counted_tokens_count)
next
  have "consume \<lparr>todo = n, conv = t\<rparr> \<lparr>yielded = ys @ [c], tokens = ts @ rest\<rparr> =
      (vs, None, \<lparr>yielded = (ys @ [c]) @ take n (ts @ rest), tokens = drop n (ts @ rest)\<rparr>)"
    using assms(2,3) by (intro consume_enough) auto
  then show "consume (next_many_tokens (int n) t) \<lparr>yielded = ys @ [c], tokens = ts @ rest\<rparr> =
           (vs, None, \<lparr>yielded = ys @ [c] @ ts, tokens = rest\<rparr>)"
    using assms(2) by (simp add: next_many_tokens_def)
qed

theorem next_counted_tokens_reads_count_witness:
  "next_counted_tokens py_int \<lparr>yielded = [], tokens = [''2'', ''4'', ''5'', ''x'', ''6'']\<rparr> =
           (Inr (next_many_tokens 2 py_int), \<lparr>yielded = [''2''], tokens = [''4'', ''5'', ''x'', ''6'']\<rparr>)
   \<and> consume (next_many_tokens 2 py_int) \<lparr>yielded = [''2''], tokens = [''4'', ''5'', ''x'', ''6'']\<rparr> =
           ([4, 5], None, \<lparr>yielded = [''2'', ''4'', ''5''], tokens = [''x'', ''6'']\<rparr>)"
  using next_counted_tokens_reads_count [of "''2''" 2 "[''4'', ''5'']" py_int "[4, 5]" "[]" "[''x'', ''6'']"]
  by (simp add: py_int_def int_unsigned_def isdigit_def digit_value_def)

text \<open>
  With a count of 3 and one token after it, one token is read and the consumption fails;
  with a count of 2 and a first token that \<^verbatim>\<open>int\<close> rejects, one token is read and the two
  after it stay in the stream.
\<close>

theorem next_counted_tokens_counterexample:
  "next_counted_tokens py_int \<lparr>yielded = [], tokens = [''3'', ''1'']\<rparr> =
      (Inr (next_many_tokens 3 py_int), \<lparr>yielded = [''3''], tokens = [''1'']\<rparr>)
   \<and> consume (next_many_tokens 3 py_int) \<lparr>yielded = [''3''], tokens = [''1'']\<rparr> =
      ([1], Some RuntimeError, \<lparr>yielded = [''3'', ''1''], tokens = []\<rparr>)
   \<and> next_counted_tokens py_int \<lparr>yielded = [], tokens = [''2'', ''x'', ''5'', ''7'']\<rparr> =
      (Inr (next_many_tokens 2 py_int), \<lparr>yielded = [''2''], tokens = [''x'', ''5'', ''7'']\<rparr>)
   \<and> consume (next_many_tokens 2 py_int) \<lparr>yielded = [''2''], tokens = [''x'', ''5'', ''7'']\<rparr> =
      ([], Some ValueError, \<lparr>yielded = [''2'', ''x''], tokens = [''5'', ''7'']\<rparr>)"
proof (intro conjI)
  show "next_counted_tokens py_int \<lparr>yielded = [], tokens = [''3'', ''1'']\<rparr> =
      (Inr (next_many_tokens 3 py_int), \<lparr>yielded = [''3''], tokens = [''1'']\<rparr>)"
    by (simp add: next_counted_tokens_count py_int_def int_unsigned_def isdigit_def digit_value_def)
  show "consume (next_many_tokens 3 py_int) \<lparr>yielded = [''3''], tokens = [''1'']\<rparr> =
      ([1], Some RuntimeError, \<lparr>yielded = [''3'', ''1''], tokens = []\<rparr>)"
    by code_simp
  show "next_counted_tokens py_int \<lparr>yielded = [], tokens = [''2'', ''x'', ''5'', ''7'']\<rparr> =
      (Inr (next_many_tokens 2 py_int), \<lparr>yielded = [''2''], tokens = [''x'', ''5'', ''7'']\<rparr>)"
    by (simp add: next_counted_tokens_count py_int_def int_unsigned_def isdigit_def digit_value_def)
  show "consume (next_many_tokens 2 py_int) \<lparr>yielded = [''2''], tokens = [''x'', ''5'', ''7'']\<rparr> =
      ([], Some ValueError, \<lparr>yielded = [''2'', ''x''], tokens = [''5'', ''7'']\<rparr>)"
    by code_simp
qed

section \<open>Printing the solutions\<close>

lemma perform_all_append:
  "perform_all f (xs @ ys) s =
     (case perform_all f xs s of
        (s', None) \<Rightarrow> perform_all f ys s'
      | (s', Some e) \<Rightarrow> (s', Some e))"
  by (induction xs arbitrary: s) (auto split: prod.splits option.splits)

lemma print_loop_calls:
  "print_loop f str_of sep k (yields vs) s =
     (case perform_all f (all_calls str_of sep k vs) s of
        (s', None) \<Rightarrow> \<lparr>ostr = s', raised = None, sigpipe_default = False\<rparr>
      | (s', Some e) \<Rightarrow> except_clause e s')"
proof (induction vs arbitrary: k s)
  case Nil
  then show ?case by (simp add: all_calls_def)
next
  case (Cons v vs)
  have split: "all_calls str_of sep k (v # vs) =
      print_calls (format_case k) (str_of v) sep @ all_calls str_of sep (Suc k) vs"
    by (simp add: all_calls_def)
  show ?case
    by (simp add: split perform_all_append py_print_def Cons.IH split: prod.splits option.splits)
qed

lemma perform_all_memory: "perform_all memory_file cs log = (log @ cs, None)"
  by (induction cs arbitrary: log) (simp_all add: perform_def memory_file_def split: call.splits)


text \<open>
  Claim C3. For every finite sequence of solutions, \<^verbatim>\<open>print_code_jam\<close> makes these calls
  on the file object and no others, in this order: for the \<open>k\<close>-th solution, counted from
  1, it writes \<open>Case #k:\<close>, then a space (or a newline when \<^verbatim>\<open>insert_newline\<close> is true), then
  the text of the solution, then a newline, and then it flushes. It returns normally. The
  text written is therefore one \<open>Case #k: value\<close> line per solution (or \<open>Case #k:\<close>, a
  newline and the value), in the order of the solutions.
\<close>

theorem print_code_jam_format:
  "print_code_jam memory_file str_of (yields vs) log insert_newline =
     \<lparr>ostr = log @ concat (map (\<lambda>(k, v).
               [Write (''Case #'' @ str_nat k @ '':''),
                Write (if insert_newline then [newline] else '' ''),
                Write (str_of v), Write [newline], Flush]) (List.enumerate 1 vs)),
      raised = None, sigpipe_default = False\<rparr>
   \<and> written (ostr (print_code_jam memory_file str_of (yields vs) [] insert_newline)) =
      concat (map (\<lambda>(k, v).
        ''Case #'' @ str_nat k @ '':'' @ (if insert_newline then [newline] else '' '')
          @ str_of v @ [newline]) (List.enumerate 1 vs))"
proof -
  let ?sep = "if insert_newline then [newline] else '' ''"
  have calls: "all_calls str_of ?sep k vs = concat (map (\<lambda>(k, v).
               [Write (''Case #'' @ str_nat k @ '':''),
                Write ?sep, Write (str_of v), Write [newline], Flush]) (List.enumerate k vs))" for k
    by (simp add: all_calls_def print_calls_def format_case_def)
  have wtext: "written (concat (map (\<lambda>(k, v).
               [Write (''Case #'' @ str_nat k @ '':''),
                Write ?sep, Write (str_of v), Write [newline], Flush]) (List.enumerate k vs))) =
      concat (map (\<lambda>(k, v). ''Case #'' @ str_nat k @ '':'' @ ?sep @ str_of v @ [newline])
         (List.enumerate k vs))" for k
    by (induction vs arbitrary: k) simp_all
  have run: "print_code_jam memory_file str_of (yields vs) log insert_newline =
     \<lparr>ostr = log @ all_calls str_of ?sep 1 vs, raised = None, sigpipe_default = False\<rparr>" for log
    by (simp add: print_code_jam_def print_loop_calls perform_all_memory)
  show ?thesis
    using wtext [of 1] by (simp add: run calls)
qed

section \<open>Reading the output back\<close>

lemma digit_char_not_newline: "d < 10 \<Longrightarrow> digit_char d \<noteq> newline"
proof -
  assume "d < 10"
  then have "d \<in> {0, 1, 2, 3, 4, 5, 6, 7, 8, 9}" by auto
  then show ?thesis by (auto simp: digit_char_def newline_def)
qed

lemma str_nat_no_newline: "newline \<notin> set (str_nat n)"
proof (induction n rule: str_nat.induct)
  case (1 n)
  show ?case
  proof (cases "n < 10")
    case True
    then show ?thesis
      using digit_char_not_newline [of n] by (subst str_nat.simps) auto
  next
    case False
    then show ?thesis
      using 1 digit_char_not_newline [of "n mod 10"] by (subst str_nat.simps) auto
  qed
qed

lemma iter_lines_Nil: "iter_lines [] = []"
  by (simp add: iter_lines.simps)

lemma iter_lines_line:
  "newline \<notin> set l \<Longrightarrow> iter_lines (l @ newline # r) = (l @ [newline]) # iter_lines r"
proof -
  assume a: "newline \<notin> set l"
  then have d: "dropWhile (\<lambda>c. c \<noteq> newline) (l @ newline # r) = newline # r"
    by (auto simp: dropWhile_append3)
  from a have t: "takeWhile (\<lambda>c. c \<noteq> newline) (l @ newline # r) = l"
    by (auto simp: takeWhile_tail)
  show ?thesis
    by (subst iter_lines.simps) (simp add: d t)
qed

lemma str_splitlines_lines:
  "\<forall>x \<in> set xs. newline \<notin> set (f x) \<Longrightarrow>
   str_splitlines (concat (map (\<lambda>x. f x @ [newline]) xs)) = map f xs"
proof (induction xs)
  case Nil
  then show ?case by (simp add: str_splitlines_def iter_lines_Nil)
next
  case (Cons x xs)
  then have nl: "newline \<notin> set (f x)" by simp
  have "str_splitlines (f x @ newline # concat (map (\<lambda>x. f x @ [newline]) xs)) =
      f x # str_splitlines (concat (map (\<lambda>x. f x @ [newline]) xs))"
    using nl by (auto simp: str_splitlines_def iter_lines_line takeWhile_tail)
  with Cons show ?case by simp
qed

lemma print_code_jam_memory:
  "print_code_jam memory_file str_of (yields vs) log insert_newline =
     \<lparr>ostr = log @ all_calls str_of (if insert_newline then [newline] else '' '') 1 vs,
      raised = None, sigpipe_default = False\<rparr>"
  by (simp add: print_code_jam_def print_loop_calls perform_all_memory)

lemma written_all_calls:
  "written (all_calls str_of sep k vs) =
     concat (map (\<lambda>(i, v). format_case i @ sep @ str_of v @ [newline]) (List.enumerate k vs))"
  by (induction vs arbitrary: k) (simp_all add: all_calls_def print_calls_def)

text \<open>
  Claim C9, as the code has it. When no solution has a newline in its text, printing \<open>k\<close>
  solutions with \<^verbatim>\<open>insert_newline\<close> false and reading the output back by lines gives
  exactly \<open>k\<close> lines, the \<open>i\<close>-th being \<open>Case #i:\<close>, a space and the text of the \<open>i\<close>-th
  solution.
\<close>

theorem print_code_jam_round_trip:
  assumes "\<forall>v \<in> set vs. newline \<notin> set (str_of v)"
  shows "str_splitlines (written (ostr (print_code_jam memory_file str_of (yields vs) [] False))) =
           map (\<lambda>(k, v). ''Case #'' @ str_nat k @ '': '' @ str_of v) (List.enumerate 1 vs)
       \<and> length (str_splitlines
            (written (ostr (print_code_jam memory_file str_of (yields vs) [] False)))) = length vs"
proof -
  let ?line = "\<lambda>(k, v). ''Case #'' @ str_nat k @ '': '' @ str_of v"
  have w: "written (ostr (print_code_jam memory_file str_of (yields vs) [] False)) =
      concat (map (\<lambda>p. ?line p @ [newline]) (List.enumerate 1 vs))"
    by (simp add: print_code_jam_memory written_all_calls format_case_def case_prod_unfold)
  have "\<forall>p \<in> set (List.enumerate 1 vs). newline \<notin> set (?line p)"
  proof -
    have fixed: "newline \<notin> set ''Case #''" "newline \<notin> set '': ''"
      by (simp_all add: newline_def)
    show ?thesis
      using assms fixed by (auto simp: in_set_enumerate_eq str_nat_no_newline)
  qed
  then have "str_splitlines (concat (map (\<lambda>p. ?line p @ [newline]) (List.enumerate 1 vs))) =
      map ?line (List.enumerate 1 vs)"
    by (rule str_splitlines_lines)
  with w show ?thesis by simp
qed

theorem print_code_jam_round_trip_witness:
  "str_splitlines (written (ostr (print_code_jam memory_file str_int (yields [3, 7, 11]) [] False))) =
     [''Case #1: 3'', ''Case #2: 7'', ''Case #3: 11'']"
  using print_code_jam_round_trip [of "[3, 7, 11]" str_int]
  by (simp add: str_int_def str_nat.simps digit_char_def newline_def enumerate_eq_zip upt_rec)

text \<open>
  A solution whose text holds a newline is printed as it is: the one solution \<open>a\<close>,
  newline, \<open>b\<close> comes back as two lines.
\<close>

theorem print_code_jam_round_trip_counterexample:
  "str_splitlines (written (ostr (print_code_jam memory_file (\<lambda>s. s)
      (yields [''a\<newline>b'']) [] False))) = [''Case #1: a'', ''b'']
   \<and> length (str_splitlines (written (ostr (print_code_jam memory_file (\<lambda>s. s)
      (yields [''a\<newline>b'']) [] False)))) \<noteq> length [''a\<newline>b'']"
  by code_simp

section \<open>A reader that goes away\<close>

















section \<open>The counted driver\<close>

lemma solve_loop_int_solver:
  "length ts = n \<Longrightarrow> map py_int ts = map Inr xs \<Longrightarrow>
   solve_loop int_solver n \<lparr>yielded = ys, tokens = ts @ rest\<rparr> = yields xs"
proof (induction ts arbitrary: n xs ys)
  case Nil
  then show ?case by simp
next
  case (Cons t ts)
  then obtain m where n: "n = Suc m" and m: "length ts = m" by (cases n) auto
  from Cons.prems(2) obtain x xs' where xs: "xs = x # xs'" and tx: "py_int t = Inr x"
    and rest: "map py_int ts = map Inr xs'"
    by (cases xs) auto
  show ?case
    using Cons.IH [OF m rest, of "ys @ [t]"]
    by (simp add: n xs int_solver_def next_token_Cons tx)
qed

text \<open>
  Claim C2. When the first token of the input converts to the integer \<open>n \<ge> 0\<close> and the
  next \<open>n\<close> tokens convert to the integers \<open>xs\<close>, the generator of \<^verbatim>\<open>solve_code_jam\<close> with the
  solver that reads one integer yields exactly these \<open>n\<close> integers, in the order of the
  input, and returns; \<^verbatim>\<open>solve_code_jam\<close> prints one line for each and returns normally.
  With a count of zero there is no solution and no output, and no exception.
\<close>

theorem solve_code_jam_counted:
  fixes n :: nat
  assumes "tokenize istr = c # ts @ rest" and "py_int c = Inr (int n)"
    and "length ts = n" and "map py_int ts = map Inr xs"
  shows "solve int_solver (Tokens_init istr) = yields xs
       \<and> length xs = n
       \<and> solve_code_jam memory_file str_int int_solver istr [] False =
           \<lparr>ostr = concat (map (\<lambda>(k, x).
                [Write (''Case #'' @ str_nat k @ '':''), Write '' '', Write (str_int x),
                 Write [newline], Flush]) (List.enumerate 1 xs)),
            raised = None, sigpipe_default = False\<rparr>
       \<and> (n = 0 \<longrightarrow> solve int_solver (Tokens_init istr) = Stop
            \<and> solve_code_jam memory_file str_int int_solver istr [] False =
                \<lparr>ostr = [], raised = None, sigpipe_default = False\<rparr>)"
proof -
  have sol: "solve int_solver (Tokens_init istr) = yields xs"
    using assms
    by (simp add: solve_def Tokens_init_def next_token_Cons solve_loop_int_solver)
  have len: "length xs = n"
    using assms(3,4) by (metis length_map)
  have out: "solve_code_jam memory_file str_int int_solver istr [] False =
           \<lparr>ostr = concat (map (\<lambda>(k, x).
                [Write (''Case #'' @ str_nat k @ '':''), Write '' '', Write (str_int x),
                 Write [newline], Flush]) (List.enumerate 1 xs)),
            raised = None, sigpipe_default = False\<rparr>"
    by (simp add: solve_code_jam_def generator_solve_code_jam_def sol print_code_jam_memory
          all_calls_def print_calls_def format_case_def)
  show ?thesis
    using sol len out by auto
qed

theorem solve_code_jam_counted_witness:
  "solve int_solver (Tokens_init ''2\<newline>10 -4\<newline>'') = yields [10, - 4]
   \<and> solve_code_jam memory_file str_int int_solver ''2\<newline>10 -4\<newline>'' [] False =
       \<lparr>ostr = [Write ''Case #1:'', Write '' '', Write ''10'', Write ''\<newline>'', Flush,
                Write ''Case #2:'', Write '' '', Write ''-4'', Write ''\<newline>'', Flush],
        raised = None, sigpipe_default = False\<rparr>
   \<and> solve int_solver (Tokens_init ''0\<newline>'') = Stop
   \<and> solve_code_jam memory_file str_int int_solver ''0\<newline>'' [] False =
       \<lparr>ostr = [], raised = None, sigpipe_default = False\<rparr>"
proof -
  have t1: "tokenize ''2\<newline>10 -4\<newline>'' = ''2'' # [''10'', ''-4''] @ []" by code_simp
  have t2: "tokenize ''0\<newline>'' = ''0'' # [] @ []" by code_simp
  have p1: "py_int ''2'' = Inr (int 2)" by code_simp
  have p2: "py_int ''0'' = Inr (int 0)" by code_simp
  have m1: "map py_int [''10'', ''-4''] = map Inr [10, - 4]" by code_simp
  have s: "str_nat (Suc 0) = ''1''" "str_nat (Suc (Suc 0)) = ''2''"
      "str_int 10 = ''10''" "str_int (- 4) = ''-4''"
    by (simp_all add: str_int_def str_nat.simps digit_char_def)
  show ?thesis
    using solve_code_jam_counted [OF t1 p1 _ m1] solve_code_jam_counted [OF t2 p2, of "[]"]
    by (simp add: enumerate_eq_zip upt_rec s newline_def)
qed

section \<open>The tokens of a stream\<close>

lemma str_split_Nil: "str_split [] = []"
  by (simp add: str_split.simps)

lemma str_split_spaces: "\<forall>c \<in> set a. isspace c \<Longrightarrow> str_split (a @ b) = str_split b"
proof -
  assume "\<forall>c \<in> set a. isspace c"
  then have "dropWhile isspace (a @ b) = dropWhile isspace b"
    by (simp add: dropWhile_append)
  then show ?thesis
    by (subst (1 2) str_split.simps) simp
qed

lemma str_split_word:
  "nonspace c \<Longrightarrow>
   str_split (c # cs) = (c # takeWhile nonspace cs) # str_split (dropWhile nonspace cs)"
  by (subst str_split.simps) (simp add: nonspace_def)

lemma str_split_space: "isspace c \<Longrightarrow> str_split (c # cs) = str_split cs"
  using str_split_spaces [of "[c]" cs] by simp

lemma str_split_append:
  "a = [] \<or> isspace (last a) \<Longrightarrow> str_split (a @ b) = str_split a @ str_split b"
proof (induction a rule: length_induct)
  case (1 a)
  show ?case
  proof (cases a)
    case Nil
    then show ?thesis by (simp add: str_split_Nil)
  next
    case (Cons c cs)
    show ?thesis
    proof (cases "isspace c")
      case True
      have "cs = [] \<or> isspace (last cs)"
        using 1(2) Cons by (auto split: if_splits)
      moreover have "length cs < length a" using Cons by simp
      ultimately have "str_split (cs @ b) = str_split cs @ str_split b"
        using 1(1) by blast
      then show ?thesis
        using True by (simp add: Cons str_split_space)
    next
      case False
      then have ns: "nonspace c" by (simp add: nonspace_def)
      from 1(2) Cons False have cs: "cs \<noteq> []" and lastcs: "isspace (last cs)"
        by (auto split: if_splits)
      then have ex: "\<exists>x \<in> set cs. \<not> nonspace x"
        using last_in_set [of cs] by (auto simp: nonspace_def)
      let ?r = "dropWhile nonspace cs"
      from ex have tw: "takeWhile nonspace (cs @ b) = takeWhile nonspace cs"
        by (auto simp: takeWhile_append)
      from ex have dw: "dropWhile nonspace (cs @ b) = ?r @ b"
        by (auto simp: dropWhile_append)
      from ex have rne: "?r \<noteq> []" by (simp add: dropWhile_eq_Nil_conv)
      have "last ?r = last cs"
        using rne by (metis last_appendR takeWhile_dropWhile_id)
      with lastcs have "?r = [] \<or> isspace (last ?r)" by simp
      moreover have "length ?r < length a"
        using Cons length_dropWhile_le [of nonspace cs] by simp
      ultimately have "str_split (?r @ b) = str_split ?r @ str_split b"
        using 1(1) by blast
      then show ?thesis
        using ns by (simp add: Cons str_split_word tw dw)
    qed
  qed
qed

lemma tokenize_str_split: "tokenize s = str_split s"
  unfolding tokenize_def
proof (induction s rule: iter_lines.induct)
  case (1 s)
  show ?case
  proof (cases "s = []")
    case True
    then show ?thesis by (simp add: iter_lines.simps str_split_Nil)
  next
    case False
    show ?thesis
    proof (cases "dropWhile (\<lambda>c. c \<noteq> newline) s")
      case Nil
      with False have "iter_lines s = [s]"
        by (subst iter_lines.simps) (simp del: dropWhile_eq_Nil_conv)
      then show ?thesis by simp
    next
      case (Cons c r)
      then have c: "c = newline"
        using hd_dropWhile [of "\<lambda>c. c \<noteq> newline" s] by auto
      let ?l = "takeWhile (\<lambda>c. c \<noteq> newline) s @ [c]"
      have s: "s = ?l @ r"
        using Cons takeWhile_dropWhile_id [of "\<lambda>c. c \<noteq> newline" s] by simp
      have sp: "isspace (last ?l)" by (simp add: c isspace_def newline_def)
      have "str_split (?l @ r) = str_split ?l @ str_split r"
        by (rule str_split_append) (use sp in simp)
      moreover have "concat (map str_split (iter_lines r)) = str_split r"
        using 1 False Cons by simp
      moreover have "iter_lines s = ?l # iter_lines r"
        using False Cons by (subst iter_lines.simps) (simp del: dropWhile_eq_Nil_conv)
      ultimately show ?thesis using s by simp
    qed
  qed
qed

lemma str_split_tokens:
  "t \<in> set (str_split s) \<Longrightarrow> t \<noteq> [] \<and> (\<forall>c \<in> set t. nonspace c)"
proof (induction s arbitrary: t rule: str_split.induct)
  case (1 s)
  show ?case
  proof (cases "dropWhile isspace s")
    case Nil
    with 1(2) show ?thesis by (simp add: str_split.simps)
  next
    case (Cons c cs)
    then have ns: "nonspace c"
      using hd_dropWhile [of isspace s] by (auto simp: nonspace_def)
    from 1(2) Cons have "t = c # takeWhile nonspace cs \<or> t \<in> set (str_split (dropWhile nonspace cs))"
      by (subst (asm) str_split.simps) simp
    then show ?thesis
    proof
      assume "t = c # takeWhile nonspace cs"
      then show ?thesis using ns by (auto dest: set_takeWhileD)
    next
      assume "t \<in> set (str_split (dropWhile nonspace cs))"
      then show ?thesis using 1(1) Cons by blast
    qed
  qed
qed

lemma is_run_shift:
  assumes "s = [] \<or> isspace (hd s) \<or> pre = [] \<or> isspace (last pre)"
  shows "is_run (pre @ s) (length pre + i) (length pre + j) \<longleftrightarrow> is_run s i j"
proof -
  let ?p = "length pre"
  have chars: "(\<forall>k. ?p + i \<le> k \<and> k < ?p + j \<longrightarrow> nonspace ((pre @ s) ! k)) \<longleftrightarrow>
      (\<forall>k. i \<le> k \<and> k < j \<longrightarrow> nonspace (s ! k))"
  proof
    assume l: "\<forall>k. ?p + i \<le> k \<and> k < ?p + j \<longrightarrow> nonspace ((pre @ s) ! k)"
    show "\<forall>k. i \<le> k \<and> k < j \<longrightarrow> nonspace (s ! k)"
    proof (intro allI impI)
      fix k assume k: "i \<le> k \<and> k < j"
      from l have "?p + i \<le> ?p + k \<and> ?p + k < ?p + j \<longrightarrow> nonspace ((pre @ s) ! (?p + k))"
        by blast
      with k show "nonspace (s ! k)" by simp
    qed
  next
    assume r: "\<forall>k. i \<le> k \<and> k < j \<longrightarrow> nonspace (s ! k)"
    show "\<forall>k. ?p + i \<le> k \<and> k < ?p + j \<longrightarrow> nonspace ((pre @ s) ! k)"
    proof (intro allI impI)
      fix k assume k: "?p + i \<le> k \<and> k < ?p + j"
      then have "i \<le> k - ?p \<and> k - ?p < j" by auto
      with r have "nonspace (s ! (k - ?p))" by blast
      moreover have "(pre @ s) ! k = s ! (k - ?p)" using k by (simp add: nth_append)
      ultimately show "nonspace ((pre @ s) ! k)" by simp
    qed
  qed
  have right: "(?p + j = length (pre @ s) \<or> isspace ((pre @ s) ! (?p + j))) \<longleftrightarrow>
      (j = length s \<or> isspace (s ! j))"
    by simp
  show ?thesis
  proof (cases i)
    case (Suc i')
    then have left: "(pre @ s) ! (?p + i - 1) = s ! (i - 1)"
      by (simp add: nth_append)
    show ?thesis
      unfolding is_run_def chars right using Suc left by auto
  next
    case 0
    show ?thesis
    proof (cases "0 < j \<and> j \<le> length s \<and> nonspace (s ! 0)")
      case False
      then have "\<not> is_run s i j" using 0 by (auto simp: is_run_def)
      moreover have "\<not> is_run (pre @ s) (?p + i) (?p + j)"
      proof
        assume run: "is_run (pre @ s) (?p + i) (?p + j)"
        then have "0 < j" "j \<le> length s" using 0 by (auto simp: is_run_def)
        moreover from run have "nonspace ((pre @ s) ! (?p + 0))"
          using 0 unfolding is_run_def by (metis add_less_cancel_left le_refl)
        ultimately show False using False by (simp add: nth_append)
      qed
      ultimately show ?thesis by simp
    next
      case True
      then have sne: "s \<noteq> []" by auto
      with True have nhd: "\<not> isspace (hd s)"
        by (simp add: nonspace_def hd_conv_nth)
      with sne assms have edge: "pre = [] \<or> isspace (last pre)" by simp
      have left: "?p = 0 \<or> isspace ((pre @ s) ! (?p - 1))"
      proof (cases "pre = []")
        case True
        then show ?thesis by simp
      next
        case False
        with edge have "isspace (last pre)" by simp
        moreover have "(pre @ s) ! (?p - 1) = last pre"
          using False by (simp add: nth_append last_conv_nth)
        ultimately show ?thesis by simp
      qed
      show ?thesis
        unfolding is_run_def chars right using 0 left by auto
    qed
  qed
qed

lemma is_run_start: "is_run s i j \<Longrightarrow> i < length s \<and> nonspace (s ! i)"
  by (auto simp: is_run_def)

lemma is_run_space_Cons:
  assumes "isspace c"
  shows "is_run (c # cs) i j \<longleftrightarrow> (\<exists>i' j'. i = Suc i' \<and> j = Suc j' \<and> is_run cs i' j')"
proof
  assume run: "is_run (c # cs) i j"
  with assms have "i \<noteq> 0"
    using is_run_start [OF run] by (cases i) (auto simp: nonspace_def)
  then obtain i' where i: "i = Suc i'" by (cases i) auto
  from run i obtain j' where j: "j = Suc j'" by (cases j) (auto simp: is_run_def)
  from run have "is_run ([c] @ cs) (length [c] + i') (length [c] + j')"
    by (simp add: i j)
  then have "is_run cs i' j'"
    using assms by (subst (asm) is_run_shift) auto
  with i j show "\<exists>i' j'. i = Suc i' \<and> j = Suc j' \<and> is_run cs i' j'" by blast
next
  assume "\<exists>i' j'. i = Suc i' \<and> j = Suc j' \<and> is_run cs i' j'"
  then obtain i' j' where i: "i = Suc i'" and j: "j = Suc j'" and run: "is_run cs i' j'"
    by blast
  have "is_run ([c] @ cs) (length [c] + i') (length [c] + j')"
    using assms run by (subst is_run_shift) auto
  then show "is_run (c # cs) i j" by (simp add: i j)
qed

lemma is_run_word_append:
  assumes tok: "tok \<noteq> []" "\<forall>x \<in> set tok. nonspace x"
    and rest: "rest = [] \<or> isspace (hd rest)"
  shows "is_run (tok @ rest) i j \<longleftrightarrow>
     (i = 0 \<and> j = length tok) \<or>
     (\<exists>i' j'. i = length tok + i' \<and> j = length tok + j' \<and> is_run rest i' j')"
proof -
  let ?b = "length tok"
  have inside: "nonspace ((tok @ rest) ! k)" if "k < ?b" for k
    using that tok(2) by (simp add: nth_append)
  have edge: "isspace ((tok @ rest) ! ?b)" if "rest \<noteq> []"
    using that rest by (simp add: nth_append hd_conv_nth)
  have first: "is_run (tok @ rest) 0 ?b"
    unfolding is_run_def using tok(1) inside edge by auto
  show ?thesis
  proof
    assume run: "is_run (tok @ rest) i j"
    show "(i = 0 \<and> j = ?b) \<or>
      (\<exists>i' j'. i = ?b + i' \<and> j = ?b + j' \<and> is_run rest i' j')"
    proof (cases "i < ?b")
      case True
      have i0: "i = 0"
      proof (rule ccontr)
        assume "i \<noteq> 0"
        with run have "isspace ((tok @ rest) ! (i - 1))" by (simp add: is_run_def)
        moreover have "nonspace ((tok @ rest) ! (i - 1))" using True by (intro inside) simp
        ultimately show False by (simp add: nonspace_def)
      qed
      have "j = ?b"
      proof (rule ccontr)
        assume ne: "j \<noteq> ?b"
        show False
        proof (cases "j < ?b")
          case True
          with run have "isspace ((tok @ rest) ! j)" by (auto simp: is_run_def)
          moreover have "nonspace ((tok @ rest) ! j)" using True by (rule inside)
          ultimately show False by (simp add: nonspace_def)
        next
          case False
          with ne have gt: "?b < j" by simp
          with run have "rest \<noteq> []" by (auto simp: is_run_def)
          then have "isspace ((tok @ rest) ! ?b)" by (rule edge)
          moreover from run gt i0 have "nonspace ((tok @ rest) ! ?b)"
            by (simp add: is_run_def)
          ultimately show False by (simp add: nonspace_def)
        qed
      qed
      with i0 show ?thesis by simp
    next
      case False
      then obtain i' where i: "i = ?b + i'" by (metis le_add_diff_inverse not_less)
      from run i obtain j' where j: "j = ?b + j'"
        by (metis is_run_def le_add_diff_inverse less_imp_le_nat add_leD1)
      from run have "is_run rest i' j'"
        unfolding i j using rest by (subst (asm) is_run_shift) auto
      with i j show ?thesis by blast
    qed
  next
    assume "(i = 0 \<and> j = ?b) \<or>
      (\<exists>i' j'. i = ?b + i' \<and> j = ?b + j' \<and> is_run rest i' j')"
    then show "is_run (tok @ rest) i j"
    proof
      assume "i = 0 \<and> j = ?b"
      with first show ?thesis by simp
    next
      assume "\<exists>i' j'. i = ?b + i' \<and> j = ?b + j' \<and> is_run rest i' j'"
      then obtain i' j' where i: "i = ?b + i'" and j: "j = ?b + j'" and run: "is_run rest i' j'"
        by blast
      show ?thesis
        unfolding i j using rest run by (subst is_run_shift) auto
    qed
  qed
qed

lemma substring_shift:
  "substring (pre @ s) (length pre + i, length pre + j) = substring s (i, j)"
  by (simp add: substring_def)

lemma substring_prefix: "substring (a @ r) (0, length a) = a"
  by (simp add: substring_def)

lemma is_run_nonempty: "is_run s i j \<Longrightarrow> s \<noteq> []"
  by (auto simp: is_run_def)

lemma str_split_runs:
  "\<exists>ps. str_split s = map (substring s) ps
      \<and> set ps = {(i, j). is_run s i j}
      \<and> sorted_wrt (\<lambda>p q. snd p < fst q) ps"
proof (induction s rule: length_induct)
  case (1 s)
  show ?case
  proof (cases s)
    case Nil
    have "{(i, j). is_run [] i j} = {}" by (auto simp: is_run_def)
    then have "str_split [] = map (substring []) []
        \<and> set [] = {(i, j). is_run [] i j}
        \<and> sorted_wrt (\<lambda>p q. snd p < fst (q :: nat \<times> nat)) []"
      by (simp add: str_split_Nil)
    then show ?thesis unfolding Nil by blast
  next
    case (Cons c cs)
    show ?thesis
    proof (cases "isspace c")
      case True
      from 1 Cons obtain ps where sp: "str_split cs = map (substring cs) ps"
        and runs: "set ps = {(i, j). is_run cs i j}"
        and ord: "sorted_wrt (\<lambda>p q. snd p < fst q) ps"
        by (metis length_Cons lessI)
      let ?sh = "\<lambda>(i, j). (Suc i, Suc j)"
      have sub: "substring (c # cs) (?sh p) = substring cs p" for p
        using substring_shift [of "[c]" cs "fst p" "snd p"] by (simp add: case_prod_unfold)
      have a: "str_split s = map (substring s) (map ?sh ps)"
        using True by (simp add: Cons str_split_space sp sub)
      have b: "set (map ?sh ps) = {(i, j). is_run s i j}"
        unfolding Cons using runs is_run_space_Cons [OF True, of cs] by force
      have c: "sorted_wrt (\<lambda>p q. snd p < fst q) (map ?sh ps)"
        using ord by (simp add: sorted_wrt_map case_prod_unfold)
      from a b c show ?thesis by blast
    next
      case False
      then have ns: "nonspace c" by (simp add: nonspace_def)
      let ?tok = "c # takeWhile nonspace cs"
      let ?rest = "dropWhile nonspace cs"
      let ?b = "length ?tok"
      have s: "s = ?tok @ ?rest" by (simp add: Cons)
      have tok: "?tok \<noteq> []" "\<forall>x \<in> set ?tok. nonspace x"
        using ns by (auto dest: set_takeWhileD)
      have rest: "?rest = [] \<or> isspace (hd ?rest)"
        using hd_dropWhile [of nonspace cs] by (auto simp: nonspace_def)
      have "length ?rest < length s"
        using length_dropWhile_le [of nonspace cs] by (simp add: Cons)
      with 1 obtain ps where sp: "str_split ?rest = map (substring ?rest) ps"
        and runs: "set ps = {(i, j). is_run ?rest i j}"
        and ord: "sorted_wrt (\<lambda>p q. snd p < fst q) ps"
        by metis
      let ?sh = "\<lambda>(i, j). (?b + i, ?b + j)"
      have sub: "substring s (?sh p) = substring ?rest p" for p
        unfolding s using substring_shift [of ?tok ?rest "fst p" "snd p"]
        by (simp add: case_prod_unfold)
      have first: "substring s (0, ?b) = ?tok"
        unfolding s by (rule substring_prefix)
      have "str_split s = ?tok # map (substring ?rest) ps"
        using ns by (simp add: Cons str_split_word sp)
      also have "\<dots> = map (substring s) ((0, ?b) # map ?sh ps)"
        by (simp only: list.map map_map o_def first sub)
      finally have a: "str_split s = map (substring s) ((0, ?b) # map ?sh ps)" .
      have b: "set ((0, ?b) # map ?sh ps) = {(i, j). is_run s i j}"
        unfolding s using runs is_run_word_append [OF tok rest] by force
      have pos: "0 < fst p" if "p \<in> set ps" for p
      proof -
        from that runs have run: "is_run ?rest (fst p) (snd p)" by auto
        then have ne: "?rest \<noteq> []" by (rule is_run_nonempty)
        with rest have "isspace (hd ?rest)" by blast
        with ne have "isspace (?rest ! 0)" by (metis hd_conv_nth)
        with is_run_start [OF run] show ?thesis by (cases "fst p") (auto simp: nonspace_def)
      qed
      have c: "sorted_wrt (\<lambda>p q. snd p < fst q) ((0, ?b) # map ?sh ps)"
        using ord pos by (auto simp: sorted_wrt_map case_prod_unfold)
      from a b c show ?thesis by blast
    qed
  qed
qed

lemma str_split_map:
  assumes "\<And>c. isspace (f c) = isspace c"
  shows "str_split (map f s) = map (map f) (str_split s)"
proof (induction s rule: str_split.induct)
  case (1 s)
  have sp: "isspace \<circ> f = isspace" and ns: "nonspace \<circ> f = nonspace"
    using assms by (auto simp: fun_eq_iff nonspace_def)
  have d: "dropWhile isspace (map f s) = map f (dropWhile isspace s)"
    by (simp add: dropWhile_map sp)
  show ?case
  proof (cases "dropWhile isspace s")
    case Nil
    then show ?thesis
      by (subst (1 2) str_split.simps) (simp add: dropWhile_map sp del: dropWhile_eq_Nil_conv)
  next
    case (Cons c cs)
    have "str_split (map f (dropWhile nonspace cs)) = map (map f) (str_split (dropWhile nonspace cs))"
      using 1 Cons by simp
    then show ?thesis
      using Cons
      by (subst (1 2) str_split.simps) (simp add: takeWhile_map dropWhile_map ns sp)
  qed
qed

lemma str_split_newline_as_space:
  "str_split (map (\<lambda>c. if c = newline then CHR '' '' else c) s) = str_split s"
proof -
  let ?f = "\<lambda>c. if c = newline then CHR '' '' else c"
  have "isspace (?f c) = isspace c" for c
    by (simp add: isspace_def newline_def)
  then have "str_split (map ?f s) = map (map ?f) (str_split s)"
    by (rule str_split_map)
  also have "\<dots> = map (\<lambda>t. t) (str_split s)"
  proof (rule map_cong [OF refl])
    fix t assume "t \<in> set (str_split s)"
    then have "\<forall>c \<in> set t. nonspace c" using str_split_tokens by blast
    moreover have "isspace newline" by (simp add: isspace_def newline_def)
    ultimately have "\<forall>c \<in> set t. c \<noteq> newline" by (auto simp: nonspace_def)
    then show "map ?f t = t" by (induction t) auto
  qed
  finally show ?thesis by simp
qed

text \<open>
  Claim C8. The tokens of a stream are exactly its maximal runs of non-whitespace
  characters, in the order of the stream: there is a list of positions, ordered from left
  to right and without overlap, that holds the maximal runs of the stream and no other
  pair, and the tokens are the texts at these positions. No token is empty and no token
  holds a whitespace character, a newline included. Reading line by line gives the
  tokens that splitting the whole stream at once gives, and a stream in which every
  newline is replaced by a space has the same tokens.
\<close>

theorem tokenize_maximal_runs:
  "(\<exists>ps. tokenize istr = map (substring istr) ps
        \<and> set ps = {(i, j). is_run istr i j}
        \<and> sorted_wrt (\<lambda>p q. snd p < fst q) ps)
   \<and> (\<forall>t \<in> set (tokenize istr). t \<noteq> [] \<and> (\<forall>c \<in> set t. \<not> isspace c))
   \<and> tokenize istr = str_split istr
   \<and> tokenize (map (\<lambda>c. if c = newline then CHR '' '' else c) istr) = tokenize istr"
proof (intro conjI)
  show "\<exists>ps. tokenize istr = map (substring istr) ps
        \<and> set ps = {(i, j). is_run istr i j}
        \<and> sorted_wrt (\<lambda>p q. snd p < fst q) ps"
    unfolding tokenize_str_split by (rule str_split_runs)
  show "\<forall>t \<in> set (tokenize istr). t \<noteq> [] \<and> (\<forall>c \<in> set t. \<not> isspace c)"
    unfolding tokenize_str_split using str_split_tokens [of _ istr] by (auto simp: nonspace_def)
  show "tokenize istr = str_split istr"
    by (rule tokenize_str_split)
  show "tokenize (map (\<lambda>c. if c = newline then CHR '' '' else c) istr) = tokenize istr"
    unfolding tokenize_str_split by (rule str_split_newline_as_space)
qed

theorem tokenize_maximal_runs_witness:
  "(\<exists>ps. [''ab'', ''c'', ''d''] = map (substring '' ab  c\<newline>d'') ps
        \<and> set ps = {(i, j). is_run '' ab  c\<newline>d'' i j}
        \<and> sorted_wrt (\<lambda>p q. snd p < fst q) ps)
   \<and> tokenize '' ab  c\<newline>d'' = [''ab'', ''c'', ''d'']
   \<and> tokenize '' ab  c d'' = [''ab'', ''c'', ''d'']
   \<and> map (substring '' ab  c\<newline>d'') [(1, 3), (5, 6), (7, 8)] = [''ab'', ''c'', ''d'']
   \<and> is_run '' ab  c\<newline>d'' 1 3 \<and> is_run '' ab  c\<newline>d'' 5 6 \<and> is_run '' ab  c\<newline>d'' 7 8"
proof -
  have k1: "1 \<le> k \<and> k < 3 \<longleftrightarrow> k = 1 \<or> k = 2" for k :: nat by auto
  have k2: "5 \<le> k \<and> k < 6 \<longleftrightarrow> k = 5" for k :: nat by auto
  have k3: "7 \<le> k \<and> k < 8 \<longleftrightarrow> k = 7" for k :: nat by auto
  have runs: "is_run '' ab  c\<newline>d'' 1 3 \<and> is_run '' ab  c\<newline>d'' 5 6
      \<and> is_run '' ab  c\<newline>d'' 7 8"
    unfolding is_run_def k1 k2 k3 by (simp add: nonspace_def isspace_def newline_def)
  have v: "tokenize '' ab  c\<newline>d'' = [''ab'', ''c'', ''d'']" by code_simp
  have m: "map (\<lambda>c. if c = newline then CHR '' '' else c) '' ab  c\<newline>d'' = '' ab  c d''"
    by (simp add: newline_def)
  have s: "map (substring '' ab  c\<newline>d'') [(1, 3), (5, 6), (7, 8)] = [''ab'', ''c'', ''d'']"
    by (simp add: substring_def)
  note T = tokenize_maximal_runs [of "'' ab  c\<newline>d''", unfolded m v]
  show ?thesis
  proof (intro conjI)
    show "\<exists>ps. [''ab'', ''c'', ''d''] = map (substring '' ab  c\<newline>d'') ps
        \<and> set ps = {(i, j). is_run '' ab  c\<newline>d'' i j}
        \<and> sorted_wrt (\<lambda>p q. snd p < fst q) ps"
      using T by (rule conjunct1)
    show "tokenize '' ab  c\<newline>d'' = [''ab'', ''c'', ''d'']" by (rule v)
    show "tokenize '' ab  c d'' = [''ab'', ''c'', ''d'']" using T by blast
    show "map (substring '' ab  c\<newline>d'') [(1, 3), (5, 6), (7, 8)] = [''ab'', ''c'', ''d'']"
      by (rule s)
    show "is_run '' ab  c\<newline>d'' 1 3" "is_run '' ab  c\<newline>d'' 5 6"
      "is_run '' ab  c\<newline>d'' 7 8"
      using runs by blast+
  qed
qed

section \<open>One cursor\<close>

lemma tokens_next_advanced: "advanced tk (snd (tokens_next tk))"
  by (cases "tokens tk") (auto simp: advanced_def tokens_next_def)

lemma next_token_advanced: "advanced tk (snd (next_token t tk))"
  using tokens_next_advanced [of tk]
  by (auto simp: next_token_def split: prod.splits sum.splits)

lemma generator_next_advanced: "advanced tk (snd (snd (generator_next g tk)))"
proof (cases "todo g")
  case 0
  then show ?thesis by (simp add: generator_next_def advanced_def)
next
  case (Suc k)
  then show ?thesis
    using next_token_advanced [of tk "conv g"]
    by (auto simp: generator_next_def split: prod.splits sum.splits)
qed

lemma next_counted_tokens_advanced: "advanced tk (snd (next_counted_tokens t tk))"
  using next_token_advanced [of tk py_int]
  by (auto simp: next_counted_tokens_def split: prod.splits sum.splits)

lemma step_advanced: "advanced (reader st) (reader (step op st))"
proof (cases op)
  case Iterate
  then show ?thesis using tokens_next_advanced [of "reader st"] by simp
next
  case (Next_token t)
  then show ?thesis using next_token_advanced [of "reader st" t] by simp
next
  case (Next_many_tokens n t)
  then show ?thesis by (simp add: advanced_def)
next
  case (Next_counted_tokens t)
  then show ?thesis
    using next_counted_tokens_advanced [of "reader st" t]
    by (auto split: prod.splits sum.splits)
next
  case (Resume i)
  then show ?thesis
    using generator_next_advanced [of "reader st" "generators st ! i"]
    by (auto simp: advanced_def split: prod.splits)
qed

lemma advanced_stream: "advanced tk tk' \<Longrightarrow> yielded tk' @ tokens tk' = yielded tk @ tokens tk"
  by (auto simp: advanced_def)

lemma run_stream:
  "yielded (reader (run ops st)) @ tokens (reader (run ops st)) =
     yielded (reader st) @ tokens (reader st)"
  unfolding run_def
proof (induction ops arbitrary: st)
  case Nil
  show ?case by simp
next
  case (Cons op ops)
  show ?case
    using Cons [of "step op st"] advanced_stream [OF step_advanced [of st op]] by simp
qed

text \<open>
  Claim C10. A \<open>Tokens\<close> object has one cursor. Whatever sequence of operations a caller
  makes on it, direct iteration, \<^verbatim>\<open>next_token\<close>, \<^verbatim>\<open>next_many_tokens\<close>,
  \<^verbatim>\<open>next_counted_tokens\<close> and the resumption of any generator object obtained from the
  latter two, in any interleaving: the tokens handed out so far, in the order in which they
  were handed out, followed by the tokens still to come, are the tokens of the input in
  their order. So no token is handed out twice and none out of order. Each single
  operation leaves the cursor where it is or hands out exactly the next token.
\<close>

theorem tokens_single_cursor:
  "yielded (reader (run ops (start istr))) @ tokens (reader (run ops (start istr))) =
     tokenize istr
   \<and> (reader (step op st) = reader st
       \<or> (\<exists>x rest. tokens (reader st) = x # rest
             \<and> reader (step op st) = \<lparr>yielded = yielded (reader st) @ [x], tokens = rest\<rparr>))"
  using run_stream [of ops "start istr"] step_advanced [of st op]
  by (simp add: start_def Tokens_init_def advanced_def)

theorem tokens_single_cursor_witness:
  "reader (run [Next_counted_tokens py_int, Resume 0, Iterate, Next_many_tokens 2 py_int,
                Resume 1, Resume 0, Next_token py_int, Resume 1, Resume 0]
              (start ''2 10\<newline>20 30 x  40\<newline>50 60'')) =
     \<lparr>yielded = [''2'', ''10'', ''20'', ''30'', ''x'', ''40'', ''50''], tokens = [''60'']\<rparr>
   \<and> tokenize ''2 10\<newline>20 30 x  40\<newline>50 60'' =
       [''2'', ''10'', ''20'', ''30'', ''x'', ''40'', ''50''] @ [''60'']"
proof -
  have r: "reader (run [Next_counted_tokens py_int, Resume 0, Iterate, Next_many_tokens 2 py_int,
                Resume 1, Resume 0, Next_token py_int, Resume 1, Resume 0]
              (start ''2 10\<newline>20 30 x  40\<newline>50 60'')) =
     \<lparr>yielded = [''2'', ''10'', ''20'', ''30'', ''x'', ''40'', ''50''], tokens = [''60'']\<rparr>"
    by code_simp
  have "yielded (reader (run [Next_counted_tokens py_int, Resume 0, Iterate,
                Next_many_tokens 2 py_int, Resume 1, Resume 0, Next_token py_int, Resume 1,
                Resume 0] (start ''2 10\<newline>20 30 x  40\<newline>50 60'')))
        @ tokens (reader (run [Next_counted_tokens py_int, Resume 0, Iterate,
                Next_many_tokens 2 py_int, Resume 1, Resume 0, Next_token py_int, Resume 1,
                Resume 0] (start ''2 10\<newline>20 30 x  40\<newline>50 60''))) =
     tokenize ''2 10\<newline>20 30 x  40\<newline>50 60''"
    using tokens_single_cursor [of "[Next_counted_tokens py_int, Resume 0, Iterate,
                Next_many_tokens 2 py_int, Resume 1, Resume 0, Next_token py_int, Resume 1,
                Resume 0]" "''2 10\<newline>20 30 x  40\<newline>50 60''" Iterate
                "start ''2 10\<newline>20 30 x  40\<newline>50 60''"]
    by (rule conjunct1)
  then show ?thesis
    unfolding r by simp
qed

end
